theory Spec2Isabelle
  imports Main
begin

section \<open>Data model of csvutils/delimited.py\<close>

text \<open>
  Python strings are modelled as \<open>string\<close> (lists of characters with code points below
  256).  The exceptions a call can end with are values of \<open>error\<close>; a function that may
  raise returns \<open>error + 'a\<close> with \<open>Inl\<close> for the exception.
\<close>

datatype error = TypeError | CsvError | StopIteration | OSError

text \<open>The attributes of a \<open>Reader\<close> that \<open>_process\<close> reads (set in \<open>__init__\<close>).\<close>

record config =
  delimiter :: string
  quote_char :: "string option"
  strict_delimitation :: bool

abbreviation NUL :: char where "NUL \<equiv> CHR 0x00"
abbreviation LF :: char where "LF \<equiv> CHR 0x0A"
abbreviation CR :: char where "CR \<equiv> CHR 0x0D"
abbreviation SP :: char where "SP \<equiv> CHR 0x20"
abbreviation DQ :: char where "DQ \<equiv> CHR 0x22"
abbreviation BS :: char where "BS \<equiv> CHR 0x5C"

section \<open>String primitives of Python used by the filter\<close>

text \<open>\<open>line.replace('\0', ' ')\<close>\<close>

definition replace_nul :: "string \<Rightarrow> string" where
  "replace_nul line = map (\<lambda>c. if c = NUL then SP else c) line"

text \<open>\<open>str.isspace\<close> on one character (code points below 256) and \<open>str.strip()\<close>.\<close>

definition isspace :: "char \<Rightarrow> bool" where
  "isspace c = (c \<in> set [CHR 0x09, CHR 0x0A, CHR 0x0B, CHR 0x0C, CHR 0x0D,
                         CHR 0x1C, CHR 0x1D, CHR 0x1E, CHR 0x1F, CHR 0x20,
                         CHR 0x85, CHR 0xA0])"

definition strip :: "string \<Rightarrow> string" where
  "strip s = rev (dropWhile isspace (rev (dropWhile isspace s)))"

text \<open>\<open>s.startswith(sub)\<close>, \<open>sub in s\<close> and \<open>s.count(sub)\<close> (non-overlapping occurrences,
  scanned from the left; the empty string occurs \<open>len(s) + 1\<close> times).\<close>

fun startswith :: "string \<Rightarrow> string \<Rightarrow> bool" where
  "startswith s [] = True"
| "startswith [] (c # sub) = False"
| "startswith (x # s) (c # sub) = (x = c \<and> startswith s sub)"

fun str_in :: "string \<Rightarrow> string \<Rightarrow> bool" where
  "str_in sub [] = (sub = [])"
| "str_in sub (x # s) = (startswith (x # s) sub \<or> str_in sub s)"

fun count_from :: "string \<Rightarrow> string \<Rightarrow> nat" where
  "count_from sub [] = 0"
| "count_from sub (x # s) =
     (if startswith (x # s) sub then Suc (count_from sub (drop (length sub - 1) s))
      else count_from sub s)"

definition str_count :: "string \<Rightarrow> string \<Rightarrow> nat" where
  "str_count s sub = (if sub = [] then length s + 1 else count_from sub s)"

section \<open>The csv module as the filter uses it\<close>

text \<open>
  \<open>csv.reader\<close> and \<open>csv.writer\<close> belong to the standard library, not to the repository.
  The model follows the parser and the writer of CPython 3.11 (\<open>Modules/_csv.c\<close>) for the
  one dialect \<open>_process\<close> builds at lines 242-246: a one-character delimiter, a
  one-character quote character, \<open>quoting = QUOTE_MINIMAL\<close> (the quote character is
  truthy there, line 201 having returned otherwise), \<open>skipinitialspace = True\<close>, and the
  defaults \<open>doublequote = True\<close>, no escape character, \<open>lineterminator = '\r\n'\<close>.
  The states for an escape character are unreachable and left out.
\<close>

record dialect =
  dia_delimiter :: char
  dia_quotechar :: char
  dia_strict :: bool

definition lineterminator :: string where
  "lineterminator = [CR, LF]"

text \<open>The default of \<open>csv.field_size_limit()\<close>.\<close>

definition field_limit :: int where
  "field_limit = 131072"

text \<open>Building the reader from the keyword arguments \<open>delimiter\<close>, \<open>quotechar\<close> (a
  string here) and \<open>strict\<close>: the dialect is validated, a delimiter or quote character that
  is not exactly one character raises \<open>TypeError\<close>.\<close>

definition csv_reader :: "string \<Rightarrow> string \<Rightarrow> bool \<Rightarrow> error + dialect" where
  "csv_reader delim quotechar strict =
     (case (delim, quotechar) of
        ([d], [q]) \<Rightarrow> Inr \<lparr> dia_delimiter = d, dia_quotechar = q, dia_strict = strict \<rparr>
      | _ \<Rightarrow> Inl TypeError)"

datatype pstate = START_RECORD | START_FIELD | IN_FIELD | IN_QUOTED_FIELD
  | QUOTE_IN_QUOTED_FIELD | EAT_CRNL

record parser =
  p_state :: pstate
  p_fields :: "string list"
  p_field :: string

definition parse_reset :: parser where
  "parse_reset = \<lparr> p_state = START_RECORD, p_fields = [], p_field = [] \<rparr>"

definition parse_save_field :: "parser \<Rightarrow> parser" where
  "parse_save_field p = p\<lparr> p_fields := p_fields p @ [p_field p], p_field := [] \<rparr>"

definition parse_add_char :: "parser \<Rightarrow> char \<Rightarrow> error + parser" where
  "parse_add_char p c =
     (if int (length (p_field p)) \<ge> field_limit then Inl CsvError
      else Inr (p\<lparr> p_field := p_field p @ [c] \<rparr>))"

definition is_newline :: "char \<Rightarrow> bool" where
  "is_newline c = (c = LF \<or> c = CR)"

text \<open>\<open>parse_process_char\<close>; the input \<open>None\<close> is the end-of-line marker \<open>EOL\<close>.  The case
  \<open>START_RECORD\<close> falls through to \<open>START_FIELD\<close> on an ordinary character.\<close>

definition start_field :: "dialect \<Rightarrow> parser \<Rightarrow> char option \<Rightarrow> error + parser" where
  "start_field dia p inp =
     (case inp of
        None \<Rightarrow> Inr ((parse_save_field p)\<lparr> p_state := START_RECORD \<rparr>)
      | Some c \<Rightarrow>
          if is_newline c then Inr ((parse_save_field p)\<lparr> p_state := EAT_CRNL \<rparr>)
          else if c = dia_quotechar dia then Inr (p\<lparr> p_state := IN_QUOTED_FIELD \<rparr>)
          else if c = SP then Inr p
          else if c = dia_delimiter dia then Inr (parse_save_field p)
          else (case parse_add_char p c of
                  Inl e \<Rightarrow> Inl e
                | Inr p' \<Rightarrow> Inr (p'\<lparr> p_state := IN_FIELD \<rparr>)))"

definition parse_process_char :: "dialect \<Rightarrow> parser \<Rightarrow> char option \<Rightarrow> error + parser" where
  "parse_process_char dia p inp =
     (case p_state p of
        START_RECORD \<Rightarrow>
          (case inp of
             None \<Rightarrow> Inr p
           | Some c \<Rightarrow>
               if is_newline c then Inr (p\<lparr> p_state := EAT_CRNL \<rparr>)
               else start_field dia (p\<lparr> p_state := START_FIELD \<rparr>) inp)
      | START_FIELD \<Rightarrow> start_field dia p inp
      | IN_FIELD \<Rightarrow>
          (case inp of
             None \<Rightarrow> Inr ((parse_save_field p)\<lparr> p_state := START_RECORD \<rparr>)
           | Some c \<Rightarrow>
               if is_newline c then Inr ((parse_save_field p)\<lparr> p_state := EAT_CRNL \<rparr>)
               else if c = dia_delimiter dia
                 then Inr ((parse_save_field p)\<lparr> p_state := START_FIELD \<rparr>)
               else parse_add_char p c)
      | IN_QUOTED_FIELD \<Rightarrow>
          (case inp of
             None \<Rightarrow> Inr p
           | Some c \<Rightarrow>
               if c = dia_quotechar dia then Inr (p\<lparr> p_state := QUOTE_IN_QUOTED_FIELD \<rparr>)
               else parse_add_char p c)
      | QUOTE_IN_QUOTED_FIELD \<Rightarrow>
          (if inp = Some (dia_quotechar dia) then
             (case parse_add_char p (dia_quotechar dia) of
                Inl e \<Rightarrow> Inl e
              | Inr p' \<Rightarrow> Inr (p'\<lparr> p_state := IN_QUOTED_FIELD \<rparr>))
           else if inp = Some (dia_delimiter dia) then
             Inr ((parse_save_field p)\<lparr> p_state := START_FIELD \<rparr>)
           else
             (case inp of
                None \<Rightarrow> Inr ((parse_save_field p)\<lparr> p_state := START_RECORD \<rparr>)
              | Some c \<Rightarrow>
                  if is_newline c then Inr ((parse_save_field p)\<lparr> p_state := EAT_CRNL \<rparr>)
                  else if \<not> dia_strict dia then
                    (case parse_add_char p c of
                       Inl e \<Rightarrow> Inl e
                     | Inr p' \<Rightarrow> Inr (p'\<lparr> p_state := IN_FIELD \<rparr>))
                  else Inl CsvError))
      | EAT_CRNL \<Rightarrow>
          (case inp of
             None \<Rightarrow> Inr (p\<lparr> p_state := START_RECORD \<rparr>)
           | Some c \<Rightarrow> if is_newline c then Inr p else Inl CsvError))"

text \<open>The loop over the characters of one line in \<open>Reader_iternext\<close>.\<close>

fun parse_chars :: "dialect \<Rightarrow> parser \<Rightarrow> string \<Rightarrow> error + parser" where
  "parse_chars dia p [] = Inr p"
| "parse_chars dia p (c # cs) =
     (case parse_process_char dia p (Some c) of
        Inl e \<Rightarrow> Inl e
      | Inr p' \<Rightarrow> parse_chars dia p' cs)"

text \<open>
  \<open>next(reader)\<close> on a reader built over the one-element tuple \<open>(line,)\<close>: the line is
  consumed, then \<open>EOL\<close>; if the record is not complete the input iterator is asked again and
  is exhausted, which ends the record in lenient mode and raises in strict mode.
\<close>

definition reader_next :: "dialect \<Rightarrow> string \<Rightarrow> error + string list" where
  "reader_next dia line =
     (case parse_chars dia parse_reset line of
        Inl e \<Rightarrow> Inl e
      | Inr p \<Rightarrow>
          (case parse_process_char dia p None of
             Inl e \<Rightarrow> Inl e
           | Inr p' \<Rightarrow>
               if p_state p' = START_RECORD then Inr (p_fields p')
               else if p_field p' \<noteq> [] \<or> p_state p' = IN_QUOTED_FIELD then
                 (if dia_strict dia then Inl CsvError
                  else Inr (p_fields (parse_save_field p')))
               else Inl StopIteration))"

text \<open>
  \<open>writer.writerow\<close>: \<open>join_append_data\<close> copies one field into the record buffer, a
  delimiter first when it is not the first field; a character that is the delimiter, the
  quote character or one of the line terminator's makes the field quoted, and the quote
  character is written twice.  A record that is one empty field is written as two quote
  characters.  The line terminator ends the record.
\<close>

definition is_special :: "dialect \<Rightarrow> char \<Rightarrow> bool" where
  "is_special dia c =
     (c = dia_delimiter dia \<or> c = dia_quotechar dia \<or> c \<in> set lineterminator)"

fun join_append_data :: "dialect \<Rightarrow> string \<Rightarrow> bool \<Rightarrow> string \<times> bool" where
  "join_append_data dia [] quoted = ([], quoted)"
| "join_append_data dia (c # cs) quoted =
     (let (rest, quoted') = join_append_data dia cs (quoted \<or> is_special dia c)
      in ((if is_special dia c \<and> c = dia_quotechar dia then [c, c] else [c]) @ rest, quoted'))"

definition join_append :: "dialect \<Rightarrow> string \<Rightarrow> nat \<Rightarrow> string \<Rightarrow> bool \<Rightarrow> string" where
  "join_append dia rec num_fields fld quoted =
     (let (body, quoted') = join_append_data dia fld quoted
      in rec @ (if num_fields > 0 then [dia_delimiter dia] else [])
             @ (if quoted' then [dia_quotechar dia] @ body @ [dia_quotechar dia] else body))"

fun join_fields :: "dialect \<Rightarrow> string \<Rightarrow> nat \<Rightarrow> string list \<Rightarrow> string \<times> nat" where
  "join_fields dia rec num_fields [] = (rec, num_fields)"
| "join_fields dia rec num_fields (f # fs) =
     join_fields dia (join_append dia rec num_fields f False) (Suc num_fields) fs"

definition writerow :: "dialect \<Rightarrow> string list \<Rightarrow> string" where
  "writerow dia row =
     (let (rec, num_fields) = join_fields dia [] 0 row;
          rec' = (if num_fields > 0 \<and> rec = []
                  then join_append dia rec (num_fields - 1) [] True else rec)
      in rec' @ lineterminator)"

section \<open>Reader._process and NoMultilineQuotedReader._process\<close>

definition reader_process :: "config \<Rightarrow> string \<Rightarrow> string" where
  "reader_process self line = replace_nul line"

text \<open>Lines 241-252: strip, parse the one line, write the parsed row back.  \<open>quote\<close> is
  the value of \<open>self.quote_char\<close>, a non-empty string at this point.\<close>

definition normalize :: "config \<Rightarrow> string \<Rightarrow> string \<Rightarrow> error + string" where
  "normalize self quote line0 =
     (let line = strip line0 in
      case csv_reader (delimiter self) quote (strict_delimitation self) of
        Inl e \<Rightarrow> Inl e
      | Inr dia \<Rightarrow>
          (case reader_next dia line of
             Inl e \<Rightarrow> Inl e
           | Inr parsed_line \<Rightarrow> Inr (writerow dia parsed_line)))"

definition process :: "config \<Rightarrow> string \<Rightarrow> error + string" where
  "process self line0 =
     (let line = replace_nul line0 in
      case quote_char self of
        None \<Rightarrow> Inr line
      | Some quote \<Rightarrow>
          if quote = [] then Inr line
          else
            let count = str_count line quote in
            if count = 0 then Inr line
            else
              let escape = [BS] in
              if \<not> str_in escape line then
                (let postfix = int (str_count line (quote @ delimiter self)) in
                 if postfix = int count then Inr line else normalize self quote line)
              else
                let escaped = str_count line (escape @ quote) in
                if escaped = count then Inr line
                else
                  let escaped_postfix = str_count line (escape @ quote @ delimiter self);
                      postfix = int (str_count line (quote @ delimiter self))
                                - int escaped_postfix in
                  if postfix = int count then Inr line else normalize self quote line)"

text \<open>The condition under which \<open>_process\<close> reaches line 241: no early \<open>return\<close> of lines
  202, 209, 228 and 234 was taken.\<close>

definition needs_repair :: "config \<Rightarrow> string \<Rightarrow> bool" where
  "needs_repair self line0 =
     (let line = replace_nul line0 in
      case quote_char self of
        None \<Rightarrow> False
      | Some quote \<Rightarrow>
          quote \<noteq> [] \<and> str_count line quote \<noteq> 0 \<and>
          (if \<not> str_in [BS] line
           then int (str_count line (quote @ delimiter self)) \<noteq> int (str_count line quote)
           else str_count line ([BS] @ quote) \<noteq> str_count line quote \<and>
                int (str_count line (quote @ delimiter self))
                  - int (str_count line ([BS] @ quote @ delimiter self))
                \<noteq> int (str_count line quote)))"

section \<open>Definitions that state the properties\<close>

text \<open>
  The variant of the filter that the refinement property compares with: it is
  \<open>process\<close> with the test of line 221 replaced by ``the escape marker (backslash followed
  by the quote character) occurs in the line''.
\<close>

definition process_marker :: "config \<Rightarrow> string \<Rightarrow> error + string" where
  "process_marker self line0 =
     (let line = replace_nul line0 in
      case quote_char self of
        None \<Rightarrow> Inr line
      | Some quote \<Rightarrow>
          if quote = [] then Inr line
          else
            let count = str_count line quote in
            if count = 0 then Inr line
            else
              let escape = [BS] in
              if \<not> str_in (escape @ quote) line then
                (let postfix = int (str_count line (quote @ delimiter self)) in
                 if postfix = int count then Inr line else normalize self quote line)
              else
                let escaped = str_count line (escape @ quote) in
                if escaped = count then Inr line
                else
                  let escaped_postfix = str_count line (escape @ quote @ delimiter self);
                      postfix = int (str_count line (quote @ delimiter self))
                                - int escaped_postfix in
                  if postfix = int count then Inr line else normalize self quote line)"

text \<open>The reader that lines 242-246 build has the dialect \<open>dia\<close>, or building it raises
  \<open>e\<close>; neither holds without a quote character, when no reader is built.\<close>

definition dialect_for :: "config \<Rightarrow> dialect \<Rightarrow> bool" where
  "dialect_for self dia =
     (case quote_char self of
        None \<Rightarrow> False
      | Some quote \<Rightarrow> csv_reader (delimiter self) quote (strict_delimitation self) = Inr dia)"

definition reader_error :: "config \<Rightarrow> error \<Rightarrow> bool" where
  "reader_error self e =
     (case quote_char self of
        None \<Rightarrow> False
      | Some quote \<Rightarrow> csv_reader (delimiter self) quote (strict_delimitation self) = Inl e)"

text \<open>Every occurrence of the quote character \<open>q\<close> is preceded by a backslash or followed
  by the delimiter \<open>d\<close>; \<open>prev\<close> is the character before the rest of the line.\<close>

fun quotes_safe :: "char \<Rightarrow> char \<Rightarrow> char option \<Rightarrow> string \<Rightarrow> bool" where
  "quotes_safe q d prev [] = True"
| "quotes_safe q d prev (c # cs) =
     ((if c = q then prev = Some BS \<or> startswith cs [d] else True)
      \<and> quotes_safe q d (Some c) cs)"

text \<open>The canonical form of a row in the words of the specification: a field that contains
  the delimiter, the quote character or a line terminator character is put between quote
  characters with its quote characters doubled; the fields are joined by the delimiter.\<close>

definition canonical_field :: "dialect \<Rightarrow> string \<Rightarrow> string" where
  "canonical_field dia f =
     (if list_ex (\<lambda>c. c = dia_delimiter dia \<or> c = dia_quotechar dia \<or> c = CR \<or> c = LF) f
      then [dia_quotechar dia]
           @ concat (map (\<lambda>c. if c = dia_quotechar dia then [c, c] else [c]) f)
           @ [dia_quotechar dia]
      else f)"

fun canonical_row :: "dialect \<Rightarrow> string list \<Rightarrow> string" where
  "canonical_row dia [] = []"
| "canonical_row dia [f] = canonical_field dia f"
| "canonical_row dia (f # g # fs) =
     canonical_field dia f @ [dia_delimiter dia] @ canonical_row dia (g # fs)"

section \<open>Reader life cycle: _open, reset and the input generator\<close>

text \<open>
  The mutable attributes of a \<open>Reader\<close>: \<open>file\<close> (here \<open>file_obj\<close>: \<open>None\<close>, or the open
  file with the number of lines already consumed), \<open>reader\<close> (here \<open>reader_obj\<close>: \<open>None\<close>,
  or the \<open>csv.reader\<close> object, with whether the generator it reads from is finished) and
  \<open>_rows_read\<close>.  The environment is the list \<open>src\<close> of the file's lines and whether
  \<open>open\<close> succeeds.  An operation returns the exception it ended with, if any, and the
  state it left behind.  The \<open>csv.reader\<close> object itself keeps nothing between two rows
  (every \<open>next\<close> starts with \<open>parse_reset\<close>); what it keeps across rows is its input, the
  generator \<open>(_process(line) for line in self.file)\<close> that \<open>_open\<close> builds at line 133.
\<close>

record reader =
  file_obj :: "nat option"
  reader_obj :: "bool option"
  rows_read :: "nat option"

text \<open>The validation of the arguments of \<open>csv.reader\<close> at lines 133-138: the delimiter
  must be one character; a quote character that is not \<open>None\<close> selects \<open>QUOTE_MINIMAL\<close> and
  must be one character, \<open>None\<close> selects \<open>QUOTE_NONE\<close> and is accepted.\<close>

definition reader_args_error :: "config \<Rightarrow> error option" where
  "reader_args_error self =
     (case quote_char self of
        None \<Rightarrow> (if length (delimiter self) = 1 then None else Some TypeError)
      | Some quote \<Rightarrow>
          (case csv_reader (delimiter self) quote (strict_delimitation self) of
             Inl e \<Rightarrow> Some e
           | Inr dia \<Rightarrow> None))"

text \<open>\<open>for index in range(number_of_header_lines): next(self.file)\<close>\<close>

fun skip_lines :: "nat \<Rightarrow> nat \<Rightarrow> nat \<Rightarrow> error option \<times> nat" where
  "skip_lines 0 len pos = (None, pos)"
| "skip_lines (Suc k) len pos =
     (if pos < len then skip_lines k len (Suc pos) else (Some StopIteration, pos))"

definition skip_header :: "int \<Rightarrow> string list \<Rightarrow> reader \<Rightarrow> error option \<times> reader" where
  "skip_header number_of_header_lines src r =
     (case file_obj r of
        None \<Rightarrow> (None, r)
      | Some pos \<Rightarrow>
          (let (e, pos') = skip_lines (nat number_of_header_lines) (length src) pos
           in (e, r\<lparr> file_obj := Some pos' \<rparr>)))"

text \<open>\<open>_open\<close>: \<open>self.file\<close> is assigned at line 128 (nothing is assigned when \<open>open\<close>
  raises), then \<open>csv.reader\<close> is built over a new generator at lines 133-138 (when it
  raises, the file stays open and \<open>reader\<close> and \<open>_rows_read\<close> keep their values), then
  \<open>_rows_read\<close> is set to 0 and the header lines are skipped.\<close>

definition open_reader ::
  "config \<Rightarrow> int \<Rightarrow> bool \<Rightarrow> string list \<Rightarrow> reader \<Rightarrow> error option \<times> reader" where
  "open_reader self number_of_header_lines can_open src r =
     (if \<not> can_open then (Some OSError, r)
      else
        (case reader_args_error self of
           Some e \<Rightarrow> (Some e, r\<lparr> file_obj := Some 0 \<rparr>)
         | None \<Rightarrow>
             skip_header number_of_header_lines src
               (r\<lparr> file_obj := Some 0, reader_obj := Some False, rows_read := Some 0 \<rparr>)))"

text \<open>\<open>reset\<close>: with an open file it seeks to the start, sets \<open>_rows_read\<close> to 0 and skips
  the header lines; \<open>self.reader\<close> is not touched.\<close>

definition reset ::
  "config \<Rightarrow> int \<Rightarrow> bool \<Rightarrow> string list \<Rightarrow> reader \<Rightarrow> error option \<times> reader" where
  "reset self number_of_header_lines can_open src r =
     (if file_obj r = None then open_reader self number_of_header_lines can_open src r
      else skip_header number_of_header_lines src
             (r\<lparr> file_obj := Some 0, rows_read := Some 0 \<rparr>))"

text \<open>
  One \<open>next\<close> on the generator \<open>(_process(line) for line in self.file)\<close>, which is how the
  \<open>csv.reader\<close> object gets its lines.  The state of the generator is whether it is
  finished and the position of the file it iterates.  A finished generator raises
  \<open>StopIteration\<close> whatever the position of the file; at the end of the file the generator
  finishes; otherwise the next line is read and passed through \<open>_process\<close> (\<open>proc\<close>), and
  an exception of \<open>_process\<close> finishes the generator as well.
\<close>

definition generator_next ::
  "(string \<Rightarrow> error + string) \<Rightarrow> string list \<Rightarrow> bool \<times> nat
     \<Rightarrow> (error + string) \<times> (bool \<times> nat)" where
  "generator_next proc src g =
     (case g of
        (finished, pos) \<Rightarrow>
          if finished then (Inl StopIteration, (True, pos))
          else if pos < length src then
            (case proc (src ! pos) of
               Inl e \<Rightarrow> (Inl e, (True, Suc pos))
             | Inr line \<Rightarrow> (Inr line, (False, Suc pos)))
          else (Inl StopIteration, (True, pos)))"

section \<open>Definitions for reading a written row back\<close>

text \<open>
  A dialect in which the delimiter and the quote character play distinct roles: they differ,
  the delimiter is not a line break or a space, the quote character is not whitespace.
  \<open>needs_quotes\<close> is the writer's test for quoting a field, \<open>reread\<close> is what the reader
  returns for a field the writer wrote (leading spaces of an unquoted field are skipped),
  \<open>after_field\<close> is the parser state after the written form of a field, and \<open>row_body\<close> is
  a written row without its line terminator.  \<open>fields_ok\<close> and \<open>has_field\<close> are invariants
  of the parser: the characters and the length of the fields read, and that a record with
  an ordinary first character has a field.
\<close>

definition sane_dialect :: "dialect \<Rightarrow> bool" where
  "sane_dialect dia =
     (dia_delimiter dia \<noteq> dia_quotechar dia \<and> \<not> is_newline (dia_delimiter dia)
      \<and> dia_delimiter dia \<noteq> SP \<and> \<not> isspace (dia_quotechar dia))"

definition needs_quotes :: "dialect \<Rightarrow> string \<Rightarrow> bool" where
  "needs_quotes dia f =
     list_ex (\<lambda>c. c = dia_delimiter dia \<or> c = dia_quotechar dia \<or> c = CR \<or> c = LF) f"

definition reread :: "dialect \<Rightarrow> string \<Rightarrow> string" where
  "reread dia f = (if needs_quotes dia f then f else dropWhile (\<lambda>c. c = SP) f)"

definition after_field :: "dialect \<Rightarrow> string list \<Rightarrow> string \<Rightarrow> parser" where
  "after_field dia acc f =
     (if needs_quotes dia f
      then \<lparr> p_state = QUOTE_IN_QUOTED_FIELD, p_fields = acc, p_field = f \<rparr>
      else if dropWhile (\<lambda>c. c = SP) f = []
      then \<lparr> p_state = START_FIELD, p_fields = acc, p_field = [] \<rparr>
      else \<lparr> p_state = IN_FIELD, p_fields = acc, p_field = dropWhile (\<lambda>c. c = SP) f \<rparr>)"

definition row_body :: "dialect \<Rightarrow> string list \<Rightarrow> string" where
  "row_body dia fs =
     (if fs = [[]] then [dia_quotechar dia, dia_quotechar dia] else canonical_row dia fs)"

definition fields_ok :: "char set \<Rightarrow> parser \<Rightarrow> bool" where
  "fields_ok A p =
     (list_all (\<lambda>f. set f \<subseteq> A \<and> int (length f) \<le> field_limit) (p_field p # p_fields p))"

definition has_field :: "parser \<Rightarrow> bool" where
  "has_field p = (p_fields p \<noteq> [] \<or> (p_state p \<noteq> START_RECORD \<and> p_state p \<noteq> EAT_CRNL))"

section \<open>Configurations and lines of the worked examples\<close>

definition comma_cfg :: config where
  "comma_cfg = \<lparr> delimiter = '','', quote_char = Some [DQ], strict_delimitation = False \<rparr>"

definition comma_dialect :: dialect where
  "comma_dialect = \<lparr> dia_delimiter = CHR '','', dia_quotechar = DQ, dia_strict = False \<rparr>"

definition double_comma_cfg :: config where
  "double_comma_cfg
     = \<lparr> delimiter = '',,'', quote_char = Some [DQ], strict_delimitation = False \<rparr>"

definition space_quote_cfg :: config where
  "space_quote_cfg = \<lparr> delimiter = '','', quote_char = Some '' '', strict_delimitation = False \<rparr>"

definition space_quote_dialect :: dialect where
  "space_quote_dialect = \<lparr> dia_delimiter = CHR '','', dia_quotechar = SP, dia_strict = False \<rparr>"

section \<open>Facts about the string primitives\<close>

lemma startswith_append: "startswith s (a @ b) \<Longrightarrow> startswith s a"
  by (induction s a rule: startswith.induct) auto

lemma str_in_append: "str_in (a @ b) s \<Longrightarrow> str_in a s"
  by (induction s) (auto dest: startswith_append)

lemma count_from_absent: "\<not> str_in sub s \<Longrightarrow> count_from sub s = 0"
  by (induction s) auto

lemma str_count_absent: "sub \<noteq> [] \<Longrightarrow> \<not> str_in sub s \<Longrightarrow> str_count s sub = 0"
  by (simp add: str_count_def count_from_absent)

lemma replace_nul_idem: "replace_nul (replace_nul line) = replace_nul line"
  by (simp add: replace_nul_def)

lemma process_cases:
  "process self line0 =
     (case quote_char self of
        None \<Rightarrow> Inr (replace_nul line0)
      | Some quote \<Rightarrow>
          if needs_repair self line0 then normalize self quote (replace_nul line0)
          else Inr (replace_nul line0))"
  by (simp add: process_def needs_repair_def Let_def split: option.splits)

lemma process_pass: "\<not> needs_repair self line \<Longrightarrow> process self line = Inr (replace_nul line)"
  by (simp add: process_cases split: option.splits)

lemma process_repair:
  "needs_repair self line \<Longrightarrow> quote_char self = Some quote \<Longrightarrow>
     process self line = normalize self quote (replace_nul line)"
  by (simp add: process_cases)


lemma dialect_forD:
  assumes "dialect_for self dia"
  shows "\<exists>quote. quote_char self = Some quote
           \<and> csv_reader (delimiter self) quote (strict_delimitation self) = Inr dia"
  using assms by (cases "quote_char self") (simp_all add: dialect_for_def)

lemma process_marker_eq: "process_marker self line = process self line"
proof (cases "quote_char self")
  case None
  then show ?thesis by (simp add: process_def process_marker_def Let_def)
next
  case (Some quote)
  let ?l = "replace_nul line"
  show ?thesis
  proof (cases "str_in [BS] ?l")
    case False
    then have "\<not> str_in ([BS] @ quote) ?l" using str_in_append by blast
    with False Some show ?thesis by (simp add: process_def process_marker_def Let_def)
  next
    case True
    show ?thesis
    proof (cases "str_in ([BS] @ quote) ?l")
      case t: True
      with True Some show ?thesis by (simp add: process_def process_marker_def Let_def)
    next
      case f: False
      then have e: "str_count ?l ([BS] @ quote) = 0" by (simp add: str_count_absent)
      have "\<not> str_in (([BS] @ quote) @ delimiter self) ?l"
        using f str_in_append by blast
      then have t: "str_count ?l ([BS] @ quote @ delimiter self) = 0"
        by (simp add: str_count_absent)
      from True f Some e t show ?thesis
        by (auto simp add: process_def process_marker_def Let_def)
    qed
  qed
qed

section \<open>Facts about the writer\<close>

lemma is_special_alt:
  "is_special dia = (\<lambda>c. c = dia_delimiter dia \<or> c = dia_quotechar dia \<or> c = CR \<or> c = LF)"
  by (rule ext) (auto simp: is_special_def lineterminator_def)

lemma join_append_data_eq:
  "join_append_data dia f quoted =
     (concat (map (\<lambda>c. if c = dia_quotechar dia then [c, c] else [c]) f),
      quoted \<or> list_ex (is_special dia) f)"
  by (induction f arbitrary: quoted) (auto simp: is_special_def)

lemma double_quotes_absent:
  "\<forall>c \<in> set f. c \<noteq> q \<Longrightarrow> concat (map (\<lambda>c. if c = q then [c, c] else [c]) f) = f"
  by (induction f) auto

lemma join_append_eq:
  "join_append dia rec n f False =
     rec @ (if n > 0 then [dia_delimiter dia] else []) @ canonical_field dia f"
proof (cases "list_ex (is_special dia) f")
  case True
  then show ?thesis
    by (simp add: join_append_def join_append_data_eq canonical_field_def is_special_alt)
next
  case False
  then have "\<forall>c \<in> set f. c \<noteq> dia_quotechar dia"
    by (auto simp: list_ex_iff is_special_def)
  then have "concat (map (\<lambda>c. if c = dia_quotechar dia then [c, c] else [c]) f) = f"
    by (rule double_quotes_absent)
  with False show ?thesis
    by (simp add: join_append_def join_append_data_eq canonical_field_def is_special_alt)
qed

lemma join_fields_pos:
  "n > 0 \<Longrightarrow> join_fields dia rec n fs =
     (rec @ concat (map (\<lambda>f. dia_delimiter dia # canonical_field dia f) fs), n + length fs)"
  by (induction fs arbitrary: rec n) (simp_all add: join_append_eq)

lemma canonical_row_Cons:
  "canonical_row dia (f # fs) =
     canonical_field dia f @ concat (map (\<lambda>f. dia_delimiter dia # canonical_field dia f) fs)"
  by (induction fs arbitrary: f) simp_all

lemma join_fields_zero: "join_fields dia [] 0 fs = (canonical_row dia fs, length fs)"
  by (cases fs) (simp_all add: join_append_eq join_fields_pos canonical_row_Cons)

lemma canonical_field_Nil_iff: "canonical_field dia f = [] \<longleftrightarrow> f = []"
  by (cases f) (simp_all add: canonical_field_def)

lemma canonical_row_Nil_iff: "canonical_row dia fs = [] \<longleftrightarrow> fs = [] \<or> fs = [[]]"
  by (cases fs) (auto simp: canonical_row_Cons canonical_field_Nil_iff)

lemma writerow_eq:
  "writerow dia fs =
     (if fs = [[]] then [dia_quotechar dia, dia_quotechar dia] else canonical_row dia fs)
     @ [CR, LF]"
  by (auto simp: writerow_def join_fields_zero canonical_row_Nil_iff join_append_def
      lineterminator_def canonical_field_def)

section \<open>Facts about the reader life cycle\<close>

lemma skip_header_reader_obj: "reader_obj (snd (skip_header n src r)) = reader_obj r"
  by (cases "file_obj r") (simp_all add: skip_header_def split: prod.splits)

lemma reset_keeps_generator:
  "file_obj r \<noteq> None \<Longrightarrow> reader_obj (snd (reset self n can_open src r)) = reader_obj r"
  by (auto simp add: reset_def skip_header_reader_obj)

section \<open>Reading a written row back\<close>

lemma field_limit_pos: "0 < field_limit"
  by (simp add: field_limit_def)

lemma isspace_newline: "is_newline c \<Longrightarrow> isspace c"
  by (auto simp: is_newline_def isspace_def)

lemma isspace_SP: "isspace SP"
  by (simp add: isspace_def)

lemma parse_chars_append:
  "parse_chars dia p (a @ b) =
     (case parse_chars dia p a of Inl e \<Rightarrow> Inl e | Inr p' \<Rightarrow> parse_chars dia p' b)"
  by (induction a arbitrary: p) (auto split: sum.splits)

lemma parse_in_field:
  assumes "\<forall>c \<in> set cs. \<not> is_newline c \<and> c \<noteq> dia_delimiter dia"
    and "int (length fld + length cs) \<le> field_limit"
  shows "parse_chars dia \<lparr> p_state = IN_FIELD, p_fields = acc, p_field = fld \<rparr> cs
         = Inr \<lparr> p_state = IN_FIELD, p_fields = acc, p_field = fld @ cs \<rparr>"
  using assms
proof (induction cs arbitrary: fld)
  case Nil
  then show ?case by simp
next
  case (Cons c cs)
  have "parse_process_char dia \<lparr> p_state = IN_FIELD, p_fields = acc, p_field = fld \<rparr> (Some c)
        = Inr \<lparr> p_state = IN_FIELD, p_fields = acc, p_field = fld @ [c] \<rparr>"
    using Cons.prems by (simp add: parse_process_char_def parse_add_char_def)
  moreover have "parse_chars dia \<lparr> p_state = IN_FIELD, p_fields = acc, p_field = fld @ [c] \<rparr> cs
        = Inr \<lparr> p_state = IN_FIELD, p_fields = acc, p_field = (fld @ [c]) @ cs \<rparr>"
    using Cons.prems by (intro Cons.IH) auto
  ultimately show ?case by simp
qed

lemma parse_unquoted:
  assumes "\<forall>c \<in> set f. \<not> is_newline c \<and> c \<noteq> dia_delimiter dia \<and> c \<noteq> dia_quotechar dia"
    and "int (length f) \<le> field_limit"
  shows "parse_chars dia \<lparr> p_state = START_FIELD, p_fields = acc, p_field = [] \<rparr> f
         = Inr (if dropWhile (\<lambda>c. c = SP) f = []
                then \<lparr> p_state = START_FIELD, p_fields = acc, p_field = [] \<rparr>
                else \<lparr> p_state = IN_FIELD, p_fields = acc,
                       p_field = dropWhile (\<lambda>c. c = SP) f \<rparr>)"
  using assms
proof (induction f)
  case Nil
  then show ?case by simp
next
  case (Cons c cs)
  show ?case
  proof (cases "c = SP")
    case True
    have "parse_process_char dia \<lparr> p_state = START_FIELD, p_fields = acc, p_field = [] \<rparr> (Some c)
          = Inr \<lparr> p_state = START_FIELD, p_fields = acc, p_field = [] \<rparr>"
      using Cons.prems True by (simp add: parse_process_char_def start_field_def)
    with Cons True show ?thesis by simp
  next
    case False
    have "parse_process_char dia \<lparr> p_state = START_FIELD, p_fields = acc, p_field = [] \<rparr> (Some c)
          = Inr \<lparr> p_state = IN_FIELD, p_fields = acc, p_field = [c] \<rparr>"
      using Cons.prems False field_limit_pos
      by (simp add: parse_process_char_def start_field_def parse_add_char_def)
    moreover have "parse_chars dia \<lparr> p_state = IN_FIELD, p_fields = acc, p_field = [c] \<rparr> cs
          = Inr \<lparr> p_state = IN_FIELD, p_fields = acc, p_field = [c] @ cs \<rparr>"
      using Cons.prems by (intro parse_in_field) auto
    ultimately show ?thesis using False by simp
  qed
qed

lemma parse_in_quoted:
  assumes "int (length fld + length f) \<le> field_limit"
  shows "parse_chars dia \<lparr> p_state = IN_QUOTED_FIELD, p_fields = acc, p_field = fld \<rparr>
           (concat (map (\<lambda>c. if c = dia_quotechar dia then [c, c] else [c]) f))
         = Inr \<lparr> p_state = IN_QUOTED_FIELD, p_fields = acc, p_field = fld @ f \<rparr>"
  using assms
proof (induction f arbitrary: fld)
  case Nil
  then show ?case by simp
next
  case (Cons c cs)
  have ih: "parse_chars dia \<lparr> p_state = IN_QUOTED_FIELD, p_fields = acc, p_field = fld @ [c] \<rparr>
           (concat (map (\<lambda>c. if c = dia_quotechar dia then [c, c] else [c]) cs))
         = Inr \<lparr> p_state = IN_QUOTED_FIELD, p_fields = acc, p_field = (fld @ [c]) @ cs \<rparr>"
    using Cons.prems by (intro Cons.IH) auto
  have lim: "\<not> field_limit \<le> int (length fld)" using Cons.prems by simp
  show ?case
  proof (cases "c = dia_quotechar dia")
    case True
    have 1: "parse_process_char dia \<lparr> p_state = IN_QUOTED_FIELD, p_fields = acc, p_field = fld \<rparr>
               (Some c)
          = Inr \<lparr> p_state = QUOTE_IN_QUOTED_FIELD, p_fields = acc, p_field = fld \<rparr>"
      using True by (simp add: parse_process_char_def)
    have 2: "parse_process_char dia
               \<lparr> p_state = QUOTE_IN_QUOTED_FIELD, p_fields = acc, p_field = fld \<rparr> (Some c)
          = Inr \<lparr> p_state = IN_QUOTED_FIELD, p_fields = acc, p_field = fld @ [c] \<rparr>"
      using True lim by (simp add: parse_process_char_def parse_add_char_def)
    from 1 2 ih True show ?thesis by simp
  next
    case False
    have 1: "parse_process_char dia \<lparr> p_state = IN_QUOTED_FIELD, p_fields = acc, p_field = fld \<rparr>
               (Some c)
          = Inr \<lparr> p_state = IN_QUOTED_FIELD, p_fields = acc, p_field = fld @ [c] \<rparr>"
      using False lim by (simp add: parse_process_char_def parse_add_char_def)
    from 1 ih False show ?thesis by simp
  qed
qed

lemma parse_quoted:
  assumes "\<not> is_newline (dia_quotechar dia)" and "int (length f) \<le> field_limit"
  shows "parse_chars dia \<lparr> p_state = START_FIELD, p_fields = acc, p_field = [] \<rparr>
           ([dia_quotechar dia]
            @ concat (map (\<lambda>c. if c = dia_quotechar dia then [c, c] else [c]) f)
            @ [dia_quotechar dia])
         = Inr \<lparr> p_state = QUOTE_IN_QUOTED_FIELD, p_fields = acc, p_field = f \<rparr>"
proof -
  have 1: "parse_process_char dia \<lparr> p_state = START_FIELD, p_fields = acc, p_field = [] \<rparr>
             (Some (dia_quotechar dia))
        = Inr \<lparr> p_state = IN_QUOTED_FIELD, p_fields = acc, p_field = [] \<rparr>"
    using assms by (simp add: parse_process_char_def start_field_def)
  have 2: "parse_chars dia \<lparr> p_state = IN_QUOTED_FIELD, p_fields = acc, p_field = [] \<rparr>
           (concat (map (\<lambda>c. if c = dia_quotechar dia then [c, c] else [c]) f))
         = Inr \<lparr> p_state = IN_QUOTED_FIELD, p_fields = acc, p_field = [] @ f \<rparr>"
    using assms by (intro parse_in_quoted) simp
  have 3: "parse_process_char dia \<lparr> p_state = IN_QUOTED_FIELD, p_fields = acc, p_field = f \<rparr>
             (Some (dia_quotechar dia))
        = Inr \<lparr> p_state = QUOTE_IN_QUOTED_FIELD, p_fields = acc, p_field = f \<rparr>"
    by (simp add: parse_process_char_def)
  from 1 2 3 show ?thesis by (simp add: parse_chars_append)
qed

lemma canonical_field_alt:
  "canonical_field dia f =
     (if needs_quotes dia f
      then [dia_quotechar dia]
           @ concat (map (\<lambda>c. if c = dia_quotechar dia then [c, c] else [c]) f)
           @ [dia_quotechar dia]
      else f)"
  by (simp add: canonical_field_def needs_quotes_def)

lemma parse_canonical_field:
  assumes "sane_dialect dia" and "int (length f) \<le> field_limit"
  shows "parse_chars dia \<lparr> p_state = START_FIELD, p_fields = acc, p_field = [] \<rparr>
           (canonical_field dia f) = Inr (after_field dia acc f)"
proof (cases "needs_quotes dia f")
  case True
  have "\<not> is_newline (dia_quotechar dia)"
    using assms(1) isspace_newline [of "dia_quotechar dia"] by (simp add: sane_dialect_def) blast
  from parse_quoted [OF this assms(2)] True show ?thesis
    by (simp only: canonical_field_alt after_field_def if_True)
next
  case False
  then have "\<forall>c \<in> set f. \<not> is_newline c \<and> c \<noteq> dia_delimiter dia \<and> c \<noteq> dia_quotechar dia"
    by (auto simp: needs_quotes_def list_ex_iff is_newline_def)
  from parse_unquoted [OF this assms(2)] False show ?thesis
    by (simp add: canonical_field_alt after_field_def)
qed

lemma after_field_cases:
  obtains (quoted) "after_field dia acc f
                      = \<lparr> p_state = QUOTE_IN_QUOTED_FIELD, p_fields = acc, p_field = f \<rparr>"
                   "reread dia f = f"
  | (blank) "after_field dia acc f = \<lparr> p_state = START_FIELD, p_fields = acc, p_field = [] \<rparr>"
            "reread dia f = []"
  | (plain) "after_field dia acc f
               = \<lparr> p_state = IN_FIELD, p_fields = acc, p_field = reread dia f \<rparr>"
proof (cases "needs_quotes dia f")
  case True
  then show ?thesis using quoted by (simp add: after_field_def reread_def)
next
  case nq: False
  show ?thesis
  proof (cases "dropWhile (\<lambda>c. c = SP) f = []")
    case True
    with nq show ?thesis using blank by (simp only: after_field_def reread_def if_False if_True)
  next
    case False
    with nq show ?thesis using plain by (simp only: after_field_def reread_def if_False)
  qed
qed

lemma sane_dialect_chars:
  assumes "sane_dialect dia"
  shows "dia_delimiter dia \<noteq> dia_quotechar dia" and "dia_delimiter dia \<noteq> SP"
    and "\<not> is_newline (dia_delimiter dia)" and "\<not> is_newline (dia_quotechar dia)"
    and "dia_quotechar dia \<noteq> SP"
  using assms isspace_newline [of "dia_quotechar dia"] isspace_SP
  by (auto simp: sane_dialect_def)

lemma after_field_delimiter:
  assumes "sane_dialect dia"
  shows "parse_process_char dia (after_field dia acc f) (Some (dia_delimiter dia))
         = Inr \<lparr> p_state = START_FIELD, p_fields = acc @ [reread dia f], p_field = [] \<rparr>"
proof (cases rule: after_field_cases [of dia acc f])
  case quoted
  then show ?thesis using sane_dialect_chars [OF assms]
    by (simp add: parse_process_char_def parse_save_field_def)
next
  case blank
  then show ?thesis using sane_dialect_chars [OF assms]
    by (simp add: parse_process_char_def start_field_def parse_save_field_def)
next
  case plain
  then show ?thesis using sane_dialect_chars [OF assms]
    by (simp add: parse_process_char_def parse_save_field_def)
qed

lemma after_field_newline:
  assumes "sane_dialect dia" and "is_newline c"
  shows "parse_process_char dia (after_field dia acc f) (Some c)
         = Inr \<lparr> p_state = EAT_CRNL, p_fields = acc @ [reread dia f], p_field = [] \<rparr>"
proof -
  have ne: "c \<noteq> dia_quotechar dia" "c \<noteq> dia_delimiter dia"
    using sane_dialect_chars [OF assms(1)] assms(2) by auto
  show ?thesis
  proof (cases rule: after_field_cases [of dia acc f])
    case quoted
    then show ?thesis using ne assms(2)
      by (simp add: parse_process_char_def parse_save_field_def)
  next
    case blank
    then show ?thesis using ne assms(2)
      by (simp add: parse_process_char_def start_field_def parse_save_field_def)
  next
    case plain
    then show ?thesis using ne assms(2)
      by (simp add: parse_process_char_def parse_save_field_def)
  qed
qed

lemma after_field_EOL:
  "parse_process_char dia (after_field dia acc f) None
         = Inr \<lparr> p_state = START_RECORD, p_fields = acc @ [reread dia f], p_field = [] \<rparr>"
proof (cases rule: after_field_cases [of dia acc f])
  case quoted
  then show ?thesis by (simp add: parse_process_char_def parse_save_field_def)
next
  case blank
  then show ?thesis by (simp add: parse_process_char_def start_field_def parse_save_field_def)
next
  case plain
  then show ?thesis by (simp add: parse_process_char_def parse_save_field_def)
qed

lemma parse_more_fields:
  assumes "sane_dialect dia" and "\<forall>g \<in> set gs. int (length g) \<le> field_limit"
  shows "parse_chars dia (after_field dia acc f)
           (concat (map (\<lambda>g. dia_delimiter dia # canonical_field dia g) gs))
         = Inr (after_field dia (acc @ map (reread dia) (butlast (f # gs))) (last (f # gs)))"
  using assms(2)
proof (induction gs arbitrary: acc f)
  case Nil
  then show ?case by simp
next
  case (Cons g gs)
  have 1: "parse_chars dia \<lparr> p_state = START_FIELD, p_fields = acc @ [reread dia f], p_field = [] \<rparr>
             (canonical_field dia g) = Inr (after_field dia (acc @ [reread dia f]) g)"
    using Cons.prems assms(1) by (intro parse_canonical_field) auto
  have 2: "parse_chars dia (after_field dia (acc @ [reread dia f]) g)
           (concat (map (\<lambda>g. dia_delimiter dia # canonical_field dia g) gs))
         = Inr (after_field dia ((acc @ [reread dia f]) @ map (reread dia) (butlast (g # gs)))
                  (last (g # gs)))"
    using Cons.prems by (intro Cons.IH) auto
  have 0: "parse_process_char dia (after_field dia acc f) (Some (dia_delimiter dia))
         = Inr \<lparr> p_state = START_FIELD, p_fields = acc @ [reread dia f], p_field = [] \<rparr>"
    by (rule after_field_delimiter [OF assms(1)])
  have "parse_chars dia (after_field dia acc f)
           (concat (map (\<lambda>g. dia_delimiter dia # canonical_field dia g) (g # gs)))
        = parse_chars dia (after_field dia (acc @ [reread dia f]) g)
           (concat (map (\<lambda>g. dia_delimiter dia # canonical_field dia g) gs))"
    by (simp add: 0 1 parse_chars_append)
  with 2 show ?case by simp
qed


lemma parse_start_record:
  "s \<noteq> [] \<Longrightarrow> \<not> is_newline (hd s) \<Longrightarrow>
     parse_chars dia parse_reset s
       = parse_chars dia \<lparr> p_state = START_FIELD, p_fields = [], p_field = [] \<rparr> s"
  by (cases s) (simp_all add: parse_reset_def parse_process_char_def)

lemma canonical_row_hd:
  assumes "sane_dialect dia" and "fs \<noteq> []" and "fs \<noteq> [[]]"
  shows "canonical_row dia fs \<noteq> [] \<and> \<not> is_newline (hd (canonical_row dia fs))"
proof -
  from assms(2) obtain f gs where fs: "fs = f # gs" by (cases fs) auto
  show ?thesis
  proof (cases "needs_quotes dia f")
    case True
    then show ?thesis using sane_dialect_chars [OF assms(1)]
      by (simp add: fs canonical_row_Cons canonical_field_alt)
  next
    case nq: False
    show ?thesis
    proof (cases f)
      case Nil
      with assms(3) fs obtain g gs' where "gs = g # gs'" by (cases gs) auto
      with Nil nq show ?thesis using sane_dialect_chars [OF assms(1)]
        by (simp add: fs canonical_row_Cons canonical_field_alt)
    next
      case (Cons c cs)
      with nq have "\<not> is_newline c"
        by (auto simp: needs_quotes_def is_newline_def)
      with Cons nq show ?thesis
        by (simp add: fs canonical_row_Cons canonical_field_alt)
    qed
  qed
qed

lemma parse_row:
  assumes "sane_dialect dia" and "fs \<noteq> []"
    and "\<forall>f \<in> set fs. int (length f) \<le> field_limit"
  shows "parse_chars dia \<lparr> p_state = START_FIELD, p_fields = [], p_field = [] \<rparr>
           (canonical_row dia fs)
         = Inr (after_field dia (map (reread dia) (butlast fs)) (last fs))"
proof -
  from assms(2) obtain f gs where fs: "fs = f # gs" by (cases fs) auto
  have 1: "parse_chars dia \<lparr> p_state = START_FIELD, p_fields = [], p_field = [] \<rparr>
             (canonical_field dia f) = Inr (after_field dia [] f)"
    using assms fs by (intro parse_canonical_field) auto
  have 2: "parse_chars dia (after_field dia [] f)
           (concat (map (\<lambda>g. dia_delimiter dia # canonical_field dia g) gs))
         = Inr (after_field dia ([] @ map (reread dia) (butlast (f # gs))) (last (f # gs)))"
    using assms fs by (intro parse_more_fields) auto
  have "parse_chars dia \<lparr> p_state = START_FIELD, p_fields = [], p_field = [] \<rparr>
           (canonical_row dia fs)
        = parse_chars dia (after_field dia [] f)
           (concat (map (\<lambda>g. dia_delimiter dia # canonical_field dia g) gs))"
    by (simp add: fs canonical_row_Cons parse_chars_append 1)
  with 2 show ?thesis by (simp add: fs)
qed

lemma reader_next_after_field:
  assumes "parse_chars dia parse_reset s = Inr (after_field dia acc f)"
  shows "reader_next dia s = Inr (acc @ [reread dia f])"
  using assms by (simp add: reader_next_def after_field_EOL)

lemma reader_next_after_field_CRLF:
  assumes "sane_dialect dia"
    and "parse_chars dia parse_reset s = Inr (after_field dia acc f)"
  shows "reader_next dia (s @ [CR, LF]) = Inr (acc @ [reread dia f])"
proof -
  have 1: "parse_process_char dia (after_field dia acc f) (Some CR)
         = Inr \<lparr> p_state = EAT_CRNL, p_fields = acc @ [reread dia f], p_field = [] \<rparr>"
    by (rule after_field_newline [OF assms(1)]) (simp add: is_newline_def)
  have 2: "parse_process_char dia
             \<lparr> p_state = EAT_CRNL, p_fields = acc @ [reread dia f], p_field = [] \<rparr> (Some LF)
         = Inr \<lparr> p_state = EAT_CRNL, p_fields = acc @ [reread dia f], p_field = [] \<rparr>"
    by (simp add: parse_process_char_def is_newline_def)
  have 3: "parse_process_char dia
             \<lparr> p_state = EAT_CRNL, p_fields = acc @ [reread dia f], p_field = [] \<rparr> None
         = Inr \<lparr> p_state = START_RECORD, p_fields = acc @ [reread dia f], p_field = [] \<rparr>"
    by (simp add: parse_process_char_def)
  have "parse_chars dia parse_reset (s @ [CR, LF])
        = Inr \<lparr> p_state = EAT_CRNL, p_fields = acc @ [reread dia f], p_field = [] \<rparr>"
    by (simp add: parse_chars_append assms(2) 1 2)
  then show ?thesis by (simp add: reader_next_def 3)
qed

lemma parse_lone_empty:
  assumes "sane_dialect dia"
  shows "parse_chars dia parse_reset [dia_quotechar dia, dia_quotechar dia]
         = Inr \<lparr> p_state = QUOTE_IN_QUOTED_FIELD, p_fields = [], p_field = [] \<rparr>"
  using sane_dialect_chars [OF assms]
  by (simp add: parse_reset_def parse_process_char_def start_field_def)

lemma row_body_lone_empty:
  assumes "sane_dialect dia"
  shows "reader_next dia [dia_quotechar dia, dia_quotechar dia] = Inr [[]]"
    and "reader_next dia ([dia_quotechar dia, dia_quotechar dia] @ [CR, LF]) = Inr [[]]"
proof -
  have q: "dia_quotechar dia \<noteq> CR" "dia_quotechar dia \<noteq> LF"
      "dia_delimiter dia \<noteq> CR" "dia_delimiter dia \<noteq> LF"
    using sane_dialect_chars [OF assms] by (auto simp: is_newline_def)
  have 1: "parse_process_char dia
             \<lparr> p_state = QUOTE_IN_QUOTED_FIELD, p_fields = [], p_field = [] \<rparr> None
           = Inr \<lparr> p_state = START_RECORD, p_fields = [[]], p_field = [] \<rparr>"
    by (simp add: parse_process_char_def parse_save_field_def)
  show "reader_next dia [dia_quotechar dia, dia_quotechar dia] = Inr [[]]"
    using parse_lone_empty [OF assms] by (simp add: reader_next_def 1)
  have 2: "parse_process_char dia
             \<lparr> p_state = QUOTE_IN_QUOTED_FIELD, p_fields = [], p_field = [] \<rparr> (Some CR)
           = Inr \<lparr> p_state = EAT_CRNL, p_fields = [[]], p_field = [] \<rparr>"
    using q by (simp add: parse_process_char_def parse_save_field_def is_newline_def)
  have 3: "parse_process_char dia
             \<lparr> p_state = EAT_CRNL, p_fields = [[]], p_field = [] \<rparr> (Some LF)
           = Inr \<lparr> p_state = EAT_CRNL, p_fields = [[]], p_field = [] \<rparr>"
    by (simp add: parse_process_char_def is_newline_def)
  have 4: "parse_process_char dia
             \<lparr> p_state = EAT_CRNL, p_fields = [[]], p_field = [] \<rparr> None
           = Inr \<lparr> p_state = START_RECORD, p_fields = [[]], p_field = [] \<rparr>"
    by (simp add: parse_process_char_def)
  have "parse_chars dia parse_reset ([dia_quotechar dia, dia_quotechar dia] @ [CR, LF])
          = Inr \<lparr> p_state = EAT_CRNL, p_fields = [[]], p_field = [] \<rparr>"
    by (simp only: parse_chars_append parse_lone_empty [OF assms]) (simp add: 2 3)
  then show "reader_next dia ([dia_quotechar dia, dia_quotechar dia] @ [CR, LF]) = Inr [[]]"
    by (simp add: reader_next_def 4)
qed

lemma parse_row_body:
  assumes "sane_dialect dia" and "fs \<noteq> []" and "fs \<noteq> [[]]"
    and "\<forall>f \<in> set fs. int (length f) \<le> field_limit"
  shows "parse_chars dia parse_reset (row_body dia fs)
        = Inr (after_field dia (map (reread dia) (butlast fs)) (last fs))"
proof -
  have h: "canonical_row dia fs \<noteq> [] \<and> \<not> is_newline (hd (canonical_row dia fs))"
    by (rule canonical_row_hd [OF assms(1,2,3)])
  then have "parse_chars dia parse_reset (canonical_row dia fs)
     = parse_chars dia \<lparr> p_state = START_FIELD, p_fields = [], p_field = [] \<rparr>
         (canonical_row dia fs)"
    by (intro parse_start_record) auto
  with assms(3) parse_row [OF assms(1,2,4)] show ?thesis
    by (simp add: row_body_def)
qed

lemma map_reread_butlast:
  "fs \<noteq> [] \<Longrightarrow> map (reread dia) (butlast fs) @ [reread dia (last fs)] = map (reread dia) fs"
  by (induction fs) auto

lemma writerow_row_body: "writerow dia fs = row_body dia fs @ [CR, LF]"
  by (simp add: writerow_eq row_body_def)

lemma reader_next_row_body:
  assumes "sane_dialect dia" and "fs \<noteq> []"
    and "\<forall>f \<in> set fs. int (length f) \<le> field_limit"
  shows "reader_next dia (row_body dia fs) = Inr (map (reread dia) fs)"
proof (cases "fs = [[]]")
  case True
  then show ?thesis using row_body_lone_empty(1) [OF assms(1)]
    by (simp add: row_body_def reread_def needs_quotes_def)
next
  case False
  from reader_next_after_field [OF parse_row_body [OF assms(1,2) False assms(3)]]
  show ?thesis by (simp add: map_reread_butlast [OF assms(2)])
qed

lemma reader_next_writerow:
  assumes "sane_dialect dia" and "fs \<noteq> []"
    and "\<forall>f \<in> set fs. int (length f) \<le> field_limit"
  shows "reader_next dia (writerow dia fs) = Inr (map (reread dia) fs)"
proof (cases "fs = [[]]")
  case True
  then show ?thesis using row_body_lone_empty(2) [OF assms(1)]
    by (simp add: writerow_row_body row_body_def reread_def needs_quotes_def)
next
  case False
  from reader_next_after_field_CRLF [OF assms(1) parse_row_body [OF assms(1,2) False assms(3)]]
  show ?thesis by (simp add: writerow_row_body map_reread_butlast [OF assms(2)])
qed


lemma parse_add_char_sel:
  "parse_add_char p c = Inr p' \<Longrightarrow> p_state p' = p_state p \<and> p_fields p' = p_fields p"
  by (auto simp: parse_add_char_def split: if_splits)

lemma fields_ok_add:
  "parse_add_char p c = Inr p' \<Longrightarrow> fields_ok A p \<Longrightarrow> c \<in> A \<Longrightarrow> fields_ok A p'"
  by (auto simp: parse_add_char_def fields_ok_def split: if_splits)

lemma fields_ok_save: "fields_ok A p \<Longrightarrow> fields_ok A (parse_save_field p)"
  using field_limit_pos by (auto simp: fields_ok_def parse_save_field_def)

lemma fields_ok_state: "fields_ok A (p\<lparr> p_state := s \<rparr>) = fields_ok A p"
  by (simp add: fields_ok_def)

lemma fields_ok_start_field:
  assumes "start_field dia p inp = Inr p'" and "fields_ok A p"
    and "case inp of None \<Rightarrow> True | Some c \<Rightarrow> c \<in> A"
  shows "fields_ok A p'"
  using assms
  by (cases inp)
     (auto simp: start_field_def fields_ok_state fields_ok_save
        split: if_splits sum.splits dest: fields_ok_add)

lemma fields_ok_step:
  assumes "parse_process_char dia p inp = Inr p'" and "fields_ok A p"
    and "case inp of None \<Rightarrow> True | Some c \<Rightarrow> c \<in> A"
  shows "fields_ok A p'"
proof (cases "p_state p")
  case START_RECORD
  then show ?thesis using assms fields_ok_start_field [of dia "p\<lparr> p_state := START_FIELD \<rparr>" inp p' A]
    by (cases inp) (auto simp: parse_process_char_def fields_ok_state split: if_splits)
next
  case START_FIELD
  then show ?thesis using assms fields_ok_start_field [of dia p inp p' A]
    by (simp add: parse_process_char_def)
next
  case IN_FIELD
  then show ?thesis using assms
    by (cases inp)
       (auto simp: parse_process_char_def fields_ok_state fields_ok_save
          split: if_splits dest: fields_ok_add)
next
  case IN_QUOTED_FIELD
  then show ?thesis using assms
    by (cases inp)
       (auto simp: parse_process_char_def fields_ok_state
          split: if_splits dest: fields_ok_add)
next
  case QUOTE_IN_QUOTED_FIELD
  then show ?thesis using assms
    by (cases inp)
       (auto simp: parse_process_char_def fields_ok_state fields_ok_save
          split: if_splits sum.splits dest: fields_ok_add)
next
  case EAT_CRNL
  then show ?thesis using assms
    by (cases inp)
       (auto simp: parse_process_char_def fields_ok_state split: if_splits)
qed

lemma fields_ok_chars:
  "parse_chars dia p s = Inr p' \<Longrightarrow> fields_ok A p \<Longrightarrow> set s \<subseteq> A \<Longrightarrow> fields_ok A p'"
proof (induction s arbitrary: p)
  case Nil
  then show ?case by simp
next
  case (Cons c cs)
  from Cons.prems(1) obtain p1 where 1: "parse_process_char dia p (Some c) = Inr p1"
    and 2: "parse_chars dia p1 cs = Inr p'"
    by (cases "parse_process_char dia p (Some c)") auto
  have "fields_ok A p1" using fields_ok_step [OF 1 Cons.prems(2)] Cons.prems(3) by simp
  with Cons.IH [OF 2] Cons.prems(3) show ?case by simp
qed

lemma reader_next_fields:
  assumes "reader_next dia s = Inr fs"
  shows "\<forall>f \<in> set fs. set f \<subseteq> set s \<and> int (length f) \<le> field_limit"
proof -
  from assms obtain p where 1: "parse_chars dia parse_reset s = Inr p"
    by (cases "parse_chars dia parse_reset s") (auto simp: reader_next_def)
  with assms obtain p' where 2: "parse_process_char dia p None = Inr p'"
    by (cases "parse_process_char dia p None") (auto simp: reader_next_def)
  have "fields_ok (set s) parse_reset"
    using field_limit_pos by (simp add: fields_ok_def parse_reset_def)
  from fields_ok_chars [OF 1 this] have "fields_ok (set s) p" by simp
  from fields_ok_step [OF 2 this] have ok: "fields_ok (set s) p'" by simp
  then have "fields_ok (set s) (parse_save_field p')" by (rule fields_ok_save)
  with ok assms 1 2 show ?thesis
    by (auto simp: reader_next_def fields_ok_def list_all_iff split: if_splits)
qed

lemma has_field_start_field:
  "start_field dia p (Some c) = Inr p' \<Longrightarrow> p_state p = START_FIELD \<Longrightarrow> has_field p'"
  by (auto simp: start_field_def has_field_def parse_save_field_def
      split: if_splits sum.splits dest: parse_add_char_sel)

lemma has_field_step:
  assumes "parse_process_char dia p (Some c) = Inr p'" and "has_field p"
  shows "has_field p'"
proof (cases "p_state p")
  case START_RECORD
  then show ?thesis using assms
    by (auto simp: parse_process_char_def has_field_def start_field_def parse_save_field_def
        split: if_splits sum.splits dest: parse_add_char_sel)
next
  case START_FIELD
  then show ?thesis using assms has_field_start_field [of dia p c p']
    by (simp add: parse_process_char_def)
next
  case IN_FIELD
  then show ?thesis using assms
    by (auto simp: parse_process_char_def has_field_def parse_save_field_def
        split: if_splits dest: parse_add_char_sel)
next
  case IN_QUOTED_FIELD
  then show ?thesis using assms
    by (auto simp: parse_process_char_def has_field_def
        split: if_splits dest: parse_add_char_sel)
next
  case QUOTE_IN_QUOTED_FIELD
  then show ?thesis using assms
    by (auto simp: parse_process_char_def has_field_def parse_save_field_def
        split: if_splits sum.splits dest: parse_add_char_sel)
next
  case EAT_CRNL
  then show ?thesis using assms
    by (auto simp: parse_process_char_def has_field_def split: if_splits)
qed

lemma has_field_first:
  assumes "\<not> is_newline c" and "parse_process_char dia parse_reset (Some c) = Inr p'"
  shows "has_field p'"
proof -
  from assms have "start_field dia (parse_reset\<lparr> p_state := START_FIELD \<rparr>) (Some c) = Inr p'"
    by (simp add: parse_process_char_def parse_reset_def)
  then show ?thesis by (rule has_field_start_field) simp
qed

lemma has_field_chars:
  "parse_chars dia p s = Inr p' \<Longrightarrow> has_field p \<Longrightarrow> has_field p'"
proof (induction s arbitrary: p)
  case Nil
  then show ?case by simp
next
  case (Cons c cs)
  from Cons.prems(1) obtain p1 where 1: "parse_process_char dia p (Some c) = Inr p1"
    and 2: "parse_chars dia p1 cs = Inr p'"
    by (cases "parse_process_char dia p (Some c)") auto
  from has_field_step [OF 1 Cons.prems(2)] Cons.IH [OF 2] show ?case by simp
qed

lemma has_field_EOL:
  assumes "parse_process_char dia p None = Inr p'" and "has_field p"
  shows "p_fields p' \<noteq> [] \<or> p_state p' = IN_QUOTED_FIELD"
  using assms
  by (cases "p_state p")
     (auto simp: parse_process_char_def has_field_def start_field_def parse_save_field_def)

lemma reader_next_nonempty:
  assumes "s \<noteq> []" and "\<not> is_newline (hd s)" and "reader_next dia s = Inr fs"
  shows "fs \<noteq> []"
proof -
  from assms(1) obtain c cs where s: "s = c # cs" by (cases s) auto
  from assms(3) obtain p where 1: "parse_chars dia parse_reset s = Inr p"
    by (cases "parse_chars dia parse_reset s") (auto simp: reader_next_def)
  with assms(3) obtain p' where 2: "parse_process_char dia p None = Inr p'"
    by (cases "parse_process_char dia p None") (auto simp: reader_next_def)
  from 1 s obtain p1 where 3: "parse_process_char dia parse_reset (Some c) = Inr p1"
    and 4: "parse_chars dia p1 cs = Inr p"
    by (cases "parse_process_char dia parse_reset (Some c)") auto
  have "has_field p1" using has_field_first [OF _ 3] assms(2) s by simp
  with 4 have "has_field p" by (rule has_field_chars)
  from has_field_EOL [OF 2 this] assms(3) 1 2 show ?thesis
    by (auto simp: reader_next_def parse_save_field_def split: if_splits)
qed

lemma rev_drop_take: "rev (dropWhile P (rev w)) @ rev (takeWhile P (rev w)) = w"
proof -
  have "rev (dropWhile P (rev w)) @ rev (takeWhile P (rev w))
        = rev (takeWhile P (rev w) @ dropWhile P (rev w))"
    by (simp only: rev_append)
  also have "\<dots> = rev (rev w)" by (simp only: takeWhile_dropWhile_id)
  finally show ?thesis by simp
qed

lemma strip_nonempty:
  assumes "x \<in> set s" and "\<not> isspace x"
  shows "strip s \<noteq> [] \<and> \<not> isspace (hd (strip s))"
proof -
  let ?u = "dropWhile isspace s"
  let ?v = "dropWhile isspace (rev ?u)"
  have u: "?u \<noteq> []" using assms by (auto simp: dropWhile_eq_Nil_conv)
  then have hu: "\<not> isspace (hd ?u)" by (rule hd_dropWhile)
  have "hd ?u \<in> set (rev ?u)" using u by simp
  with hu have v: "?v \<noteq> []" by (auto simp: dropWhile_eq_Nil_conv)
  have "hd (rev ?v @ rev (takeWhile isspace (rev ?u))) = hd ?u"
    by (simp only: rev_drop_take)
  moreover have "rev ?v \<noteq> []" using v by simp
  ultimately have "hd ?u = hd (rev ?v)" by (metis hd_append2)
  with hu v show ?thesis by (simp add: strip_def)
qed

lemma set_strip: "set (strip s) \<subseteq> set s"
proof -
  have "set (strip s) = set (dropWhile isspace (rev (dropWhile isspace s)))"
    by (simp add: strip_def)
  also have "\<dots> \<subseteq> set (rev (dropWhile isspace s))" by (auto dest: set_dropWhileD)
  also have "\<dots> \<subseteq> set s" by (auto dest: set_dropWhileD)
  finally show ?thesis .
qed

lemma str_in_single: "str_in [q] s \<Longrightarrow> q \<in> set s"
  by (induction s) auto

lemma needs_repair_quote:
  assumes "needs_repair self line" and "dialect_for self dia"
  shows "dia_quotechar dia \<in> set (replace_nul line)"
proof -
  from dialect_forD [OF assms(2)] obtain quote where q: "quote_char self = Some quote"
    and cr: "csv_reader (delimiter self) quote (strict_delimitation self) = Inr dia"
    by blast
  from cr have quote: "quote = [dia_quotechar dia]"
    by (auto simp: csv_reader_def split: list.splits)
  with assms(1) q have "str_count (replace_nul line) [dia_quotechar dia] \<noteq> 0"
    by (simp add: needs_repair_def Let_def)
  then have "str_in [dia_quotechar dia] (replace_nul line)"
    using count_from_absent [of "[dia_quotechar dia]" "replace_nul line"]
    by (auto simp: str_count_def)
  then show ?thesis by (rule str_in_single)
qed

lemma replace_nul_id: "NUL \<notin> set s \<Longrightarrow> replace_nul s = s"
  by (induction s) (auto simp: replace_nul_def)

lemma replace_nul_free: "NUL \<notin> set (replace_nul s)"
  by (auto simp: replace_nul_def)

lemma nul_free_canonical_field:
  "NUL \<notin> set f \<Longrightarrow> dia_quotechar dia \<noteq> NUL \<Longrightarrow> NUL \<notin> set (canonical_field dia f)"
  by (auto simp: canonical_field_def split: if_splits)

lemma nul_free_writerow:
  assumes "\<forall>f \<in> set fs. NUL \<notin> set f" and "dia_quotechar dia \<noteq> NUL"
    and "dia_delimiter dia \<noteq> NUL"
  shows "NUL \<notin> set (writerow dia fs)"
proof (cases fs)
  case Nil
  then show ?thesis by (simp add: writerow_eq)
next
  case (Cons f gs)
  have "\<forall>g \<in> set fs. NUL \<notin> set (canonical_field dia g)"
    using assms(1,2) nul_free_canonical_field by blast
  with Cons assms(2,3) show ?thesis
    by (auto simp: writerow_eq canonical_row_Cons)
qed

section \<open>The claims\<close>

text \<open>
  C1 (evaluation at the failing input).  In the line \<open>\"a,b",c\<close> (delimiter comma, quote
  character the double quote) the first quote is escaped and the second one is followed by
  the delimiter, so every quote is in a safe position; the filter does not return the line
  but rewrites it, because the count of quote-delimiter pairs is compared with the count of
  all quotes, the escaped ones included.
\<close>

theorem process_mixed_line_rewritten:
  "quotes_safe DQ (CHR '','') None ([BS, DQ] @ ''a,b'' @ [DQ] @ '',c'')
   \<and> process comma_cfg ([BS, DQ] @ ''a,b'' @ [DQ] @ '',c'')
       = Inr ([DQ, BS, DQ, DQ] @ ''a'' @ [DQ] @ '','' @ [DQ] @ ''b'' @ [DQ, DQ, DQ]
              @ '',c'' @ [CR, LF])
   \<and> replace_nul ([BS, DQ] @ ''a,b'' @ [DQ] @ '',c'') = [BS, DQ] @ ''a,b'' @ [DQ] @ '',c''"
  by code_simp

text \<open>
  C2 (as stated, refuted).  The line \<open>a","b "\<close> is repaired to \<open>"a""",b \<close> followed by
  CR LF: the second field, read from a quoted field, ends with a space and is written
  without quotes.  Repairing that line again strips the space and gives \<open>"a""",b\<close> followed
  by CR LF, a different line.
\<close>

theorem repair_idempotent_counterexample:
  "process comma_cfg (''a'' @ [DQ] @ '','' @ [DQ] @ ''b '' @ [DQ])
     = Inr ([DQ] @ ''a'' @ [DQ, DQ, DQ] @ '',b '' @ [CR, LF])
   \<and> process comma_cfg ([DQ] @ ''a'' @ [DQ, DQ, DQ] @ '',b '' @ [CR, LF])
     = Inr ([DQ] @ ''a'' @ [DQ, DQ, DQ] @ '',b'' @ [CR, LF])
   \<and> [DQ] @ ''a'' @ [DQ, DQ, DQ] @ '',b '' @ [CR, LF]
     \<noteq> [DQ] @ ''a'' @ [DQ, DQ, DQ] @ '',b'' @ [CR, LF]"
  by code_simp

text \<open>
  C2 (amended).  Repairing the result of the filter again changes nothing for every line
  that is passed through, and for a repaired line when the delimiter and the quote
  character are different characters, the delimiter is not NUL, CR, LF or a space, the
  quote character is not whitespace, every field of the parsed row is read back unchanged
  from its written form (no field written without quotes begins with a space), and the
  replacement line is its own stripped form followed by CR LF (apart from the terminator
  it neither begins nor ends with whitespace).
\<close>

theorem repair_idempotent:
  assumes p: "process self line = Inr out"
    and h: "\<not> needs_repair self line
            \<or> (\<exists>dia fs. dialect_for self dia \<and> sane_dialect dia
                  \<and> dia_delimiter dia \<noteq> NUL
                  \<and> reader_next dia (strip (replace_nul line)) = Inr fs
                  \<and> map (reread dia) fs = fs
                  \<and> strip out @ [CR, LF] = out)"
  shows "process self out = Inr out"
proof (cases "needs_repair self line")
  case False
  with p have "out = replace_nul line" by (simp add: process_pass)
  moreover have "process self (replace_nul line) = process self line"
    by (simp add: process_def replace_nul_idem)
  ultimately show ?thesis using p by simp
next
  case True
  with h obtain dia fs where df: "dialect_for self dia" and sane: "sane_dialect dia"
    and dn: "dia_delimiter dia \<noteq> NUL"
    and f: "reader_next dia (strip (replace_nul line)) = Inr fs"
    and rr: "map (reread dia) fs = fs" and st: "strip out @ [CR, LF] = out"
    by blast
  let ?s = "strip (replace_nul line)"
  from dialect_forD [OF df] obtain quote where q: "quote_char self = Some quote"
    and d: "csv_reader (delimiter self) quote (strict_delimitation self) = Inr dia"
    by blast
  from True p q have "normalize self quote (replace_nul line) = Inr out"
    by (simp add: process_repair)
  with d f have out: "out = writerow dia fs" by (simp add: normalize_def)
  have qin: "dia_quotechar dia \<in> set (replace_nul line)"
    by (rule needs_repair_quote [OF True df])
  then have qn: "dia_quotechar dia \<noteq> NUL" using replace_nul_free [of line] by metis
  have "\<not> isspace (dia_quotechar dia)" using sane by (simp add: sane_dialect_def)
  with qin have "?s \<noteq> [] \<and> \<not> isspace (hd ?s)" by (rule strip_nonempty)
  then have "?s \<noteq> []" and "\<not> is_newline (hd ?s)" using isspace_newline by blast+
  then have ne: "fs \<noteq> []" using f by (rule reader_next_nonempty)
  have fl: "\<forall>f \<in> set fs. set f \<subseteq> set ?s \<and> int (length f) \<le> field_limit"
    by (rule reader_next_fields [OF f])
  then have len: "\<forall>f \<in> set fs. int (length f) \<le> field_limit" by blast
  have "\<forall>f \<in> set fs. NUL \<notin> set f"
    using fl set_strip [of "replace_nul line"] replace_nul_free [of line] by blast
  then have "NUL \<notin> set out" unfolding out by (rule nul_free_writerow [OF _ qn dn])
  then have rn: "replace_nul out = out" by (rule replace_nul_id)
  from st out have "strip out @ [CR, LF] = row_body dia fs @ [CR, LF]"
    by (simp add: writerow_row_body)
  then have so: "strip out = row_body dia fs" by simp
  have "reader_next dia (row_body dia fs) = Inr fs"
    using reader_next_row_body [OF sane ne len] rr by simp
  with so d out have "normalize self quote out = Inr out" by (simp add: normalize_def)
  with rn q show ?thesis by (simp add: process_cases)
qed

text \<open>The canonical line \<open>a,"b""c",d\<close> with CR LF, the repair of \<open>a,b"c,d\<close>, is repaired to
  itself.\<close>

theorem repair_idempotent_witness:
  "process comma_cfg (''a,'' @ [DQ] @ ''b'' @ [DQ, DQ] @ ''c'' @ [DQ] @ '',d'' @ [CR, LF])
     = Inr (''a,'' @ [DQ] @ ''b'' @ [DQ, DQ] @ ''c'' @ [DQ] @ '',d'' @ [CR, LF])"
proof -
  let ?l = "''a,b'' @ [DQ] @ ''c,d''"
  let ?o = "''a,'' @ [DQ] @ ''b'' @ [DQ, DQ] @ ''c'' @ [DQ] @ '',d'' @ [CR, LF]"
  let ?fs = "[''a'', ''b'' @ [DQ] @ ''c'', ''d'']"
  have b: "process comma_cfg ?l = Inr ?o" by code_simp
  have 1: "dialect_for comma_cfg comma_dialect" by code_simp
  have 2: "sane_dialect comma_dialect" by code_simp
  have 3: "dia_delimiter comma_dialect \<noteq> NUL" by code_simp
  have 4: "reader_next comma_dialect (strip (replace_nul ?l)) = Inr ?fs" by code_simp
  have 5: "map (reread comma_dialect) ?fs = ?fs" by code_simp
  have 6: "strip ?o @ [CR, LF] = ?o" by code_simp
  have "\<exists>dia fs. dialect_for comma_cfg dia \<and> sane_dialect dia
                  \<and> dia_delimiter dia \<noteq> NUL
                  \<and> reader_next dia (strip (replace_nul ?l)) = Inr fs
                  \<and> map (reread dia) fs = fs
                  \<and> strip ?o @ [CR, LF] = ?o"
    by (rule exI [of _ comma_dialect], rule exI [of _ ?fs], intro conjI,
        rule 1, rule 2, rule 3, rule 4, rule 5, rule 6)
  then have "\<not> needs_repair comma_cfg ?l
            \<or> (\<exists>dia fs. dialect_for comma_cfg dia \<and> sane_dialect dia
                  \<and> dia_delimiter dia \<noteq> NUL
                  \<and> reader_next dia (strip (replace_nul ?l)) = Inr fs
                  \<and> map (reread dia) fs = fs
                  \<and> strip ?o @ [CR, LF] = ?o)"
    by (rule disjI2)
  from repair_idempotent [OF b this] show ?thesis .
qed

text \<open>
  C3.  With a quote character configured and at least one occurrence of it in the line
  (after the NUL substitution), the filter returns the line with nothing but the NUL
  substitution applied whenever (a) the count of backslash-quote pairs equals the count of
  quotes, or (b) the count of quote-delimiter pairs, less the count of
  backslash-quote-delimiter triples when the escape marker occurs, equals the count of
  quotes.
\<close>

theorem process_safe_counts:
  assumes "quote_char self = Some quote" and "quote \<noteq> []"
    and "l = replace_nul line"
    and "str_count l quote > 0"
    and "str_count l ([BS] @ quote) = str_count l quote \<or>
         int (str_count l (quote @ delimiter self))
           - (if str_in ([BS] @ quote) l
              then int (str_count l ([BS] @ quote @ delimiter self)) else 0)
         = int (str_count l quote)"
  shows "process self line = Inr l"
proof -
  have "process_marker self line = Inr l"
    using assms by (auto simp add: process_marker_def Let_def str_count_absent)
  then show ?thesis by (simp add: process_marker_eq)
qed

text \<open>The scenario of C3: \<open>a,b",c\<close> has one quote and one quote-delimiter pair and is
  returned unchanged.\<close>

theorem process_safe_counts_witness:
  "process comma_cfg (''a,b'' @ [DQ] @ '',c'') = Inr (''a,b'' @ [DQ] @ '',c'')"
proof -
  let ?l = "''a,b'' @ [DQ] @ '',c''"
  have 1: "quote_char comma_cfg = Some [DQ]" by (simp add: comma_cfg_def)
  have 2: "[DQ] \<noteq> []" by simp
  have 3: "?l = replace_nul ?l" by code_simp
  have 4: "str_count ?l [DQ] > 0" by code_simp
  have 5: "str_count ?l ([BS] @ [DQ]) = str_count ?l [DQ] \<or>
         int (str_count ?l ([DQ] @ delimiter comma_cfg))
           - (if str_in ([BS] @ [DQ]) ?l
              then int (str_count ?l ([BS] @ [DQ] @ delimiter comma_cfg)) else 0)
         = int (str_count ?l [DQ])" by code_simp
  show ?thesis by (rule process_safe_counts [OF 1 2 3 4 5])
qed




text \<open>
  C5.  When the configured quote character is \<open>None\<close> or the empty string, the filter
  returns every line with nothing but the NUL substitution applied.
\<close>

theorem process_no_quote_char:
  "quote_char self = None \<or> quote_char self = Some [] \<Longrightarrow>
     process self line = Inr (replace_nul line)"
  by (auto simp: process_def)

theorem process_no_quote_char_witness:
  "process (comma_cfg\<lparr> quote_char := None \<rparr>) (''a'' @ [DQ, NUL] @ ''b'')
     = Inr (replace_nul (''a'' @ [DQ, NUL] @ ''b''))
   \<and> replace_nul (''a'' @ [DQ, NUL] @ ''b'') = ''a'' @ [DQ] @ '' b''"
proof -
  have "quote_char (comma_cfg\<lparr> quote_char := None \<rparr>) = None
        \<or> quote_char (comma_cfg\<lparr> quote_char := None \<rparr>) = Some []" by simp
  from process_no_quote_char [OF this, of "''a'' @ [DQ, NUL] @ ''b''"]
  show ?thesis by (simp add: replace_nul_def)
qed

text \<open>
  C6.  The base reader's preprocessing is the NUL substitution.  The repair filter applies
  it first: its result depends on the line only through the substituted line, a line that
  is not repaired is returned as exactly the substituted line, and a repaired one is the
  normalisation of the substituted line.  The substitution keeps the length and changes a
  character exactly where it is NUL, to a space.
\<close>

theorem nul_substitution_first:
  "reader_process self line = replace_nul line
   \<and> process self line = process self (replace_nul line)
   \<and> process self line
       = (case quote_char self of
            None \<Rightarrow> Inr (replace_nul line)
          | Some quote \<Rightarrow>
              if needs_repair self line then normalize self quote (replace_nul line)
              else Inr (replace_nul line))
   \<and> length (replace_nul line) = length line
   \<and> (\<forall>i < length line. replace_nul line ! i = (if line ! i = NUL then SP else line ! i))
   \<and> NUL \<notin> set (replace_nul line)"
proof -
  have 1: "reader_process self line = replace_nul line"
    by (simp add: reader_process_def)
  have 2: "process self line = process self (replace_nul line)"
    by (simp add: process_def replace_nul_idem)
  have 3: "length (replace_nul line) = length line"
    by (simp add: replace_nul_def)
  have 4: "\<forall>i < length line. replace_nul line ! i = (if line ! i = NUL then SP else line ! i)"
    by (simp add: replace_nul_def)
  have 5: "NUL \<notin> set (replace_nul line)"
    by (auto simp: replace_nul_def)
  from 1 2 3 4 5 process_cases [of self line] show ?thesis by blast
qed

text \<open>The scenario of C6: \<open>a,\x00b,c\<close> becomes \<open>a, b,c\<close>.\<close>

theorem nul_substitution_first_witness:
  "reader_process comma_cfg (''a,'' @ [NUL] @ ''b,c'') = ''a, b,c''
   \<and> process comma_cfg (''a,'' @ [NUL] @ ''b,c'') = Inr ''a, b,c''
   \<and> (1::nat) < length (''a,'' @ [NUL] @ ''b,c'')
   \<and> replace_nul (''a,'' @ [NUL] @ ''b,c'') ! 2 = SP"
proof -
  let ?l = "''a,'' @ [NUL] @ ''b,c''"
  have r: "replace_nul ?l = ''a, b,c''" by (simp add: replace_nul_def)
  have n: "\<not> needs_repair comma_cfg ?l" by code_simp
  have b: "reader_process comma_cfg ?l = replace_nul ?l"
    and p: "process comma_cfg ?l
             = (case quote_char comma_cfg of
                  None \<Rightarrow> Inr (replace_nul ?l)
                | Some quote \<Rightarrow>
                    if needs_repair comma_cfg ?l then normalize comma_cfg quote (replace_nul ?l)
                    else Inr (replace_nul ?l))"
    and i: "\<forall>i < length ?l. replace_nul ?l ! i = (if ?l ! i = NUL then SP else ?l ! i)"
    using nul_substitution_first [of comma_cfg ?l] by blast+
  from p n have "process comma_cfg ?l = Inr (replace_nul ?l)"
    by (simp split: option.splits)
  moreover have "(1::nat) < length ?l" by simp
  moreover have "replace_nul ?l ! 2 = SP" using i by simp
  ultimately show ?thesis using b r by simp
qed

text \<open>
  C7 (as stated, refuted).  With the space as quote character the line that is one space
  takes the repair path: it is stripped to the empty line, which parses to the empty row,
  written as the bare line terminator; splitting that replacement yields no field.
\<close>

theorem repaired_line_splits_counterexample:
  "needs_repair space_quote_cfg '' ''
   \<and> process space_quote_cfg '' '' = Inr [CR, LF]
   \<and> dialect_for space_quote_cfg space_quote_dialect
   \<and> reader_next space_quote_dialect [CR, LF] = Inr []"
  by code_simp

text \<open>
  C7 (amended).  When the delimiter and the quote character are different characters, the
  delimiter is not CR, LF or a space and the quote character is not whitespace, then for
  every line that takes the repair path and for which the filter returns a line, splitting
  the returned line with the reader of the same dialect raises nothing and yields at least
  one field.
\<close>

theorem repaired_line_splits:
  assumes "needs_repair self line" and "process self line = Inr out"
    and "dialect_for self dia" and "sane_dialect dia"
  shows "\<exists>fs. reader_next dia out = Inr fs \<and> fs \<noteq> []"
proof -
  let ?s = "strip (replace_nul line)"
  from dialect_forD [OF assms(3)] obtain quote where q: "quote_char self = Some quote"
    and d: "csv_reader (delimiter self) quote (strict_delimitation self) = Inr dia"
    by blast
  from assms(1,2) q have n: "normalize self quote (replace_nul line) = Inr out"
    by (simp add: process_repair)
  with d obtain fs where f: "reader_next dia ?s = Inr fs"
    by (cases "reader_next dia ?s") (simp_all add: normalize_def)
  from n d f have out: "out = writerow dia fs" by (simp add: normalize_def)
  have "dia_quotechar dia \<in> set (replace_nul line)"
    by (rule needs_repair_quote [OF assms(1,3)])
  moreover have "\<not> isspace (dia_quotechar dia)" using assms(4) by (simp add: sane_dialect_def)
  ultimately have "?s \<noteq> [] \<and> \<not> isspace (hd ?s)" by (rule strip_nonempty)
  then have "?s \<noteq> []" and "\<not> is_newline (hd ?s)" using isspace_newline by blast+
  then have ne: "fs \<noteq> []" using f by (rule reader_next_nonempty)
  have "\<forall>f \<in> set fs. int (length f) \<le> field_limit"
    using reader_next_fields [OF f] by blast
  from reader_next_writerow [OF assms(4) ne this] ne out show ?thesis by simp
qed

theorem repaired_line_splits_witness:
  "\<exists>fs. reader_next comma_dialect
           (''a,'' @ [DQ] @ ''b'' @ [DQ, DQ] @ ''c'' @ [DQ] @ '',d'' @ [CR, LF]) = Inr fs
        \<and> fs \<noteq> []"
proof -
  let ?l = "''a,b'' @ [DQ] @ ''c,d''"
  have a: "needs_repair comma_cfg ?l" by code_simp
  have b: "process comma_cfg ?l
     = Inr (''a,'' @ [DQ] @ ''b'' @ [DQ, DQ] @ ''c'' @ [DQ] @ '',d'' @ [CR, LF])"
    by code_simp
  have c: "dialect_for comma_cfg comma_dialect" by code_simp
  have d: "sane_dialect comma_dialect" by code_simp
  show ?thesis by (rule repaired_line_splits [OF a b c d])
qed

text \<open>
  C8.  On the repair path, an exception raised while the reader is built or by the parse
  of the stripped line is the result of the filter: nothing is caught, substituted or
  retried.
\<close>

theorem process_error_propagates:
  assumes "needs_repair self line"
    and "reader_error self e
         \<or> (\<exists>dia. dialect_for self dia
                 \<and> reader_next dia (strip (replace_nul line)) = Inl e)"
  shows "process self line = Inl e"
  using assms
  by (cases "quote_char self")
     (auto simp: process_cases normalize_def Let_def dialect_for_def reader_error_def)

text \<open>A line with a quote and a carriage return inside an unquoted field: the parse
  raises \<open>csv.Error\<close> also in lenient mode, and so does the filter.\<close>

theorem process_error_propagates_witness:
  "needs_repair comma_cfg (''a'' @ [DQ, CR] @ ''b'')
   \<and> reader_next comma_dialect (strip (replace_nul (''a'' @ [DQ, CR] @ ''b''))) = Inl CsvError
   \<and> process comma_cfg (''a'' @ [DQ, CR] @ ''b'') = Inl CsvError"
proof -
  let ?l = "''a'' @ [DQ, CR] @ ''b''"
  have a: "needs_repair comma_cfg ?l" by code_simp
  have d: "dialect_for comma_cfg comma_dialect" by code_simp
  have b: "reader_next comma_dialect (strip (replace_nul ?l)) = Inl CsvError" by code_simp
  have "reader_error comma_cfg CsvError
         \<or> (\<exists>dia. dialect_for comma_cfg dia
                 \<and> reader_next dia (strip (replace_nul ?l)) = Inl CsvError)"
    using d b by blast
  from process_error_propagates [OF a this] a b show ?thesis by blast
qed

text \<open>
  C9 (evaluation at the failing inputs).  Two readers over the file with the lines \<open>h\<close>
  and \<open>x\<close> and one header line.

  With the two-character delimiter \<open>,,\<close> the first \<open>reset\<close> of a reader that was never
  opened raises \<open>TypeError\<close> from \<open>csv.reader\<close> after the file was opened, and leaves
  \<open>_rows_read\<close> at \<open>None\<close>; the second \<open>reset\<close> returns normally with \<open>_rows_read\<close> 0: two
  calls do not leave the state of one call.

  With the comma as delimiter, a reader that was read to the end has a finished
  generator (the step at position 2 finishes it).  \<open>reset\<close> puts the file back after the
  header line and \<open>_rows_read\<close> to 0 but leaves the generator finished, so the next row
  request ends in \<open>StopIteration\<close> although the line \<open>x\<close> is there to be read, as the step
  of an unfinished generator at the same position shows.
\<close>

theorem reset_residual_state:
  "reset double_comma_cfg 1 True [''h'', ''x'']
       \<lparr> file_obj = None, reader_obj = None, rows_read = None \<rparr>
     = (Some TypeError, \<lparr> file_obj = Some 0, reader_obj = None, rows_read = None \<rparr>)
   \<and> reset double_comma_cfg 1 True [''h'', ''x'']
       \<lparr> file_obj = Some 0, reader_obj = None, rows_read = None \<rparr>
     = (None, \<lparr> file_obj = Some 1, reader_obj = None, rows_read = Some 0 \<rparr>)
   \<and> reset comma_cfg 1 True [''h'', ''x'']
       \<lparr> file_obj = None, reader_obj = None, rows_read = None \<rparr>
     = (None, \<lparr> file_obj = Some 1, reader_obj = Some False, rows_read = Some 0 \<rparr>)
   \<and> generator_next (\<lambda>line. Inr (reader_process comma_cfg line)) [''h'', ''x''] (False, 1)
     = (Inr ''x'', (False, 2))
   \<and> generator_next (\<lambda>line. Inr (reader_process comma_cfg line)) [''h'', ''x''] (False, 2)
     = (Inl StopIteration, (True, 2))
   \<and> reset comma_cfg 1 True [''h'', ''x'']
       \<lparr> file_obj = Some 2, reader_obj = Some True, rows_read = Some 1 \<rparr>
     = (None, \<lparr> file_obj = Some 1, reader_obj = Some True, rows_read = Some 0 \<rparr>)
   \<and> generator_next (\<lambda>line. Inr (reader_process comma_cfg line)) [''h'', ''x''] (True, 1)
     = (Inl StopIteration, (True, 1))"
  by code_simp

text \<open>
  C10.  The filter decides as the variant that branches on the presence of the escape
  marker (backslash followed by the quote character) instead of the presence of a
  backslash: both return the same result on every line and configuration.
\<close>

theorem backslash_test_refines_marker_test:
  "process self line = process_marker self line"
  by (simp add: process_marker_eq)

end
